theory Spec2Isabelle
  imports Main
begin

section \<open>Python values and exceptions\<close>

text \<open>
  The cache stores payloads of any Python type. Integers are kept apart because the
  methods \<open>get\<close> and \<open>peek\<close> answer the integer \<open>-1\<close> for a missing key; strings are
  kept apart because the usage example of the source stores them; every other payload
  is an opaque \<open>PyObj\<close>. Keys are values of an arbitrary hashable type \<open>'k\<close>, compared
  by equality.
\<close>

datatype 'a pyval = PyInt int | PyStr string | PyObj 'a

datatype py_error = ValueError | KeyError

section \<open>collections.OrderedDict\<close>

text \<open>
  An \<open>OrderedDict\<close> is the list of its items in insertion order: the head is the
  first item (the one \<open>popitem(last=False)\<close> removes), the last element is the item
  inserted most recently.
\<close>

type_synonym ('k, 'v) ordered_dict = "('k \<times> 'v) list"

text \<open>\<open>key in d\<close>\<close>

definition od_contains :: "'k \<Rightarrow> ('k, 'v) ordered_dict \<Rightarrow> bool" where
  "od_contains k d = (k \<in> set (map fst d))"

text \<open>\<open>len(d)\<close>\<close>

definition od_len :: "('k, 'v) ordered_dict \<Rightarrow> int" where
  "od_len d = int (length d)"

text \<open>\<open>d.get(key, default)\<close>\<close>

definition od_get :: "'k \<Rightarrow> 'v \<Rightarrow> ('k, 'v) ordered_dict \<Rightarrow> 'v" where
  "od_get k dflt d = (case map_of d k of None \<Rightarrow> dflt | Some v \<Rightarrow> v)"

text \<open>\<open>d[key] = value\<close>: an existing key keeps its position, a new key goes to the end.\<close>

fun od_setitem :: "'k \<Rightarrow> 'v \<Rightarrow> ('k, 'v) ordered_dict \<Rightarrow> ('k, 'v) ordered_dict" where
  "od_setitem k v [] = [(k, v)]"
| "od_setitem k v ((k', v') # d) =
     (if k' = k then (k, v) # d else (k', v') # od_setitem k v d)"

text \<open>\<open>d.pop(key)\<close>: removes the item and returns its value; \<open>KeyError\<close> on a missing key.\<close>

fun od_pop :: "'k \<Rightarrow> ('k, 'v) ordered_dict \<Rightarrow> py_error + ('v \<times> ('k, 'v) ordered_dict)" where
  "od_pop k [] = Inl KeyError"
| "od_pop k ((k', v') # d) =
     (if k' = k then Inr (v', d)
      else (case od_pop k d of
              Inl e \<Rightarrow> Inl e
            | Inr (v, d') \<Rightarrow> Inr (v, (k', v') # d')))"

text \<open>\<open>d.popitem(last=False)\<close>: removes and returns the first item; \<open>KeyError\<close> when empty.\<close>

fun od_popitem_first ::
  "('k, 'v) ordered_dict \<Rightarrow> py_error + (('k \<times> 'v) \<times> ('k, 'v) ordered_dict)" where
  "od_popitem_first [] = Inl KeyError"
| "od_popitem_first (kv # d) = Inr (kv, d)"

section \<open>class LRUCache\<close>

text \<open>
  The fields \<open>capacity\<close> and \<open>cache\<close> of the source. The field \<open>lock\<close> is not part of
  the state: every method is modelled as one atomic step, which is what a single
  caller observes.
\<close>

record ('k, 'v) LRUCache =
  capacity :: int
  cache :: "('k, 'v pyval) ordered_dict"

text \<open>\<open>__init__\<close>\<close>

definition LRUCache_init :: "int \<Rightarrow> py_error + ('k, 'v) LRUCache" where
  "LRUCache_init cap =
     (if cap \<le> 0 then Inl ValueError
      else Inr \<lparr>capacity = cap, cache = []\<rparr>)"

definition get :: "'k \<Rightarrow> ('k, 'v) LRUCache \<Rightarrow> py_error + ('v pyval \<times> ('k, 'v) LRUCache)" where
  "get key self =
     (if \<not> od_contains key (cache self) then Inr (PyInt (- 1), self)
      else (case od_pop key (cache self) of
              Inl e \<Rightarrow> Inl e
            | Inr (val, d) \<Rightarrow> Inr (val, self\<lparr>cache := od_setitem key val d\<rparr>)))"

definition put :: "'k \<Rightarrow> 'v pyval \<Rightarrow> ('k, 'v) LRUCache \<Rightarrow> py_error + ('k, 'v) LRUCache" where
  "put key val self =
     (if od_contains key (cache self) then
        (case od_pop key (cache self) of
           Inl e \<Rightarrow> Inl e
         | Inr (_, d) \<Rightarrow> Inr (self\<lparr>cache := od_setitem key val d\<rparr>))
      else if od_len (cache self) \<ge> capacity self then
        (case od_popitem_first (cache self) of
           Inl e \<Rightarrow> Inl e
         | Inr (_, d) \<Rightarrow> Inr (self\<lparr>cache := od_setitem key val d\<rparr>))
      else Inr (self\<lparr>cache := od_setitem key val (cache self)\<rparr>))"

definition clear :: "('k, 'v) LRUCache \<Rightarrow> py_error + ('k, 'v) LRUCache" where
  "clear self = Inr (self\<lparr>cache := []\<rparr>)"

definition get_size :: "('k, 'v) LRUCache \<Rightarrow> py_error + (int \<times> ('k, 'v) LRUCache)" where
  "get_size self = Inr (od_len (cache self), self)"

definition is_full :: "('k, 'v) LRUCache \<Rightarrow> py_error + (bool \<times> ('k, 'v) LRUCache)" where
  "is_full self = Inr (od_len (cache self) \<ge> capacity self, self)"

definition peek :: "'k \<Rightarrow> ('k, 'v) LRUCache \<Rightarrow> py_error + ('v pyval \<times> ('k, 'v) LRUCache)" where
  "peek key self = Inr (od_get key (PyInt (- 1)) (cache self), self)"

section \<open>Sequences of calls on one cache\<close>

datatype ('k, 'v) call =
  Get 'k | Put 'k "'v pyval" | Peek 'k | Clear | GetSize | IsFull

datatype 'v retval = RetVal "'v pyval" | RetNone | RetInt int | RetBool bool

fun apply_call ::
  "('k, 'v) call \<Rightarrow> ('k, 'v) LRUCache \<Rightarrow> py_error + ('v retval \<times> ('k, 'v) LRUCache)" where
  "apply_call (Get k) s =
     (case get k s of Inl e \<Rightarrow> Inl e | Inr (v, s') \<Rightarrow> Inr (RetVal v, s'))"
| "apply_call (Put k v) s =
     (case put k v s of Inl e \<Rightarrow> Inl e | Inr s' \<Rightarrow> Inr (RetNone, s'))"
| "apply_call (Peek k) s =
     (case peek k s of Inl e \<Rightarrow> Inl e | Inr (v, s') \<Rightarrow> Inr (RetVal v, s'))"
| "apply_call Clear s =
     (case clear s of Inl e \<Rightarrow> Inl e | Inr s' \<Rightarrow> Inr (RetNone, s'))"
| "apply_call GetSize s =
     (case get_size s of Inl e \<Rightarrow> Inl e | Inr (n, s') \<Rightarrow> Inr (RetInt n, s'))"
| "apply_call IsFull s =
     (case is_full s of Inl e \<Rightarrow> Inl e | Inr (b, s') \<Rightarrow> Inr (RetBool b, s'))"

text \<open>A sequence of calls stops at the first exception, and collects the results otherwise.\<close>

fun run_calls ::
  "('k, 'v) call list \<Rightarrow> ('k, 'v) LRUCache
     \<Rightarrow> py_error + ('v retval list \<times> ('k, 'v) LRUCache)" where
  "run_calls [] s = Inr ([], s)"
| "run_calls (c # cs) s =
     (case apply_call c s of
        Inl e \<Rightarrow> Inl e
      | Inr (r, s') \<Rightarrow>
          (case run_calls cs s' of
             Inl e \<Rightarrow> Inl e
           | Inr (rs, s'') \<Rightarrow> Inr (r # rs, s'')))"

text \<open>
  \<open>fresh_run cap cs\<close> constructs a cache of capacity \<open>cap\<close> and makes the calls \<open>cs\<close>
  on it. A state is reachable when it is the final state of such a run.
\<close>

definition fresh_run ::
  "int \<Rightarrow> ('k, 'v) call list \<Rightarrow> py_error + ('v retval list \<times> ('k, 'v) LRUCache)" where
  "fresh_run cap cs =
     (case LRUCache_init cap of Inl e \<Rightarrow> Inl e | Inr s \<Rightarrow> run_calls cs s)"

text \<open>The representation invariant of reachable states.\<close>

definition lru_inv :: "('k, 'v) LRUCache \<Rightarrow> bool" where
  "lru_inv s =
     (1 \<le> capacity s \<and> distinct (map fst (cache s)) \<and> od_len (cache s) \<le> capacity s)"

text \<open>The items of a dictionary other than the one of key \<open>k\<close>, in their order.\<close>

definition others :: "'k \<Rightarrow> ('k, 'v) ordered_dict \<Rightarrow> ('k, 'v) ordered_dict" where
  "others k d = filter (\<lambda>kv. fst kv \<noteq> k) d"

section \<open>Facts about the dictionary operations\<close>

lemma od_setitem_absent: "\<not> od_contains k d \<Longrightarrow> od_setitem k v d = d @ [(k, v)]"
  by (induction d) (auto simp: od_contains_def)

lemma others_absent: "\<not> od_contains k d \<Longrightarrow> others k d = d"
  by (induction d) (auto simp: od_contains_def others_def)

lemma od_contains_others [simp]: "\<not> od_contains k (others k d)"
  by (auto simp: od_contains_def others_def)

lemma od_contains_map_of: "od_contains k d = (map_of d k \<noteq> None)"
  by (simp add: od_contains_def map_of_eq_None_iff)

lemma od_pop_present:
  "od_contains k d \<Longrightarrow> distinct (map fst d) \<Longrightarrow>
   \<exists>v. map_of d k = Some v \<and> od_pop k d = Inr (v, others k d)"
proof (induction d)
  case Nil
  then show ?case by (simp add: od_contains_def)
next
  case (Cons kv d)
  obtain k' v' where kv: "kv = (k', v')" by (cases kv)
  show ?case
  proof (cases "k' = k")
    case True
    with Cons.prems kv have "\<not> od_contains k d"
      by (simp add: od_contains_def)
    then have "others k d = d" by (rule others_absent)
    with True kv show ?thesis by (simp add: others_def)
  next
    case False
    with Cons.prems kv have "od_contains k d" "distinct (map fst d)"
      by (auto simp: od_contains_def)
    with Cons.IH obtain v where "map_of d k = Some v" "od_pop k d = Inr (v, others k d)"
      by blast
    with False kv show ?thesis by (simp add: others_def)
  qed
qed

lemma distinct_others: "distinct (map fst d) \<Longrightarrow> distinct (map fst (others k d))"
  by (simp add: others_def distinct_map_filter)

lemma length_others_present:
  "od_contains k d \<Longrightarrow> distinct (map fst d) \<Longrightarrow> Suc (length (others k d)) = length d"
proof (induction d)
  case Nil
  then show ?case by (simp add: od_contains_def)
next
  case (Cons kv d)
  show ?case
  proof (cases "fst kv = k")
    case True
    with Cons.prems have "\<not> od_contains k d" by (simp add: od_contains_def)
    then have "others k d = d" by (rule others_absent)
    with True show ?thesis by (simp add: others_def)
  next
    case False
    with Cons.prems have "od_contains k d" "distinct (map fst d)"
      by (auto simp: od_contains_def)
    with Cons.IH False show ?thesis by (simp add: others_def)
  qed
qed

lemma map_of_others: "map_of (others k d) k' = (if k' = k then None else map_of d k')"
  by (induction d) (auto simp: others_def)

section \<open>What each method does on a state satisfying the invariant\<close>

lemma get_absent: "\<not> od_contains k (cache s) \<Longrightarrow> get k s = Inr (PyInt (- 1), s)"
  by (simp add: get_def)

lemma get_present:
  assumes "lru_inv s" and "od_contains k (cache s)"
  shows "\<exists>v. map_of (cache s) k = Some v \<and>
             get k s = Inr (v, s\<lparr>cache := others k (cache s) @ [(k, v)]\<rparr>)"
proof -
  from assms have dist: "distinct (map fst (cache s))" by (simp add: lru_inv_def)
  from od_pop_present [OF assms(2) dist] obtain v where
    v: "map_of (cache s) k = Some v" and p: "od_pop k (cache s) = Inr (v, others k (cache s))"
    by (elim exE conjE)
  have a: "od_setitem k v (others k (cache s)) = others k (cache s) @ [(k, v)]"
    by (rule od_setitem_absent) simp
  have "get k s = Inr (v, s\<lparr>cache := others k (cache s) @ [(k, v)]\<rparr>)"
    unfolding get_def using assms(2) by (simp add: p a)
  with v show ?thesis by blast
qed

lemma put_present:
  assumes "lru_inv s" and "od_contains k (cache s)"
  shows "put k v s = Inr (s\<lparr>cache := others k (cache s) @ [(k, v)]\<rparr>)"
proof -
  from assms have dist: "distinct (map fst (cache s))" by (simp add: lru_inv_def)
  from od_pop_present [OF assms(2) dist] obtain w where
    p: "od_pop k (cache s) = Inr (w, others k (cache s))"
    by (elim exE conjE)
  have a: "od_setitem k v (others k (cache s)) = others k (cache s) @ [(k, v)]"
    by (rule od_setitem_absent) simp
  show ?thesis
    unfolding put_def using assms(2) by (simp add: p a)
qed

lemma put_room:
  assumes "\<not> od_contains k (cache s)" and "od_len (cache s) < capacity s"
  shows "put k v s = Inr (s\<lparr>cache := cache s @ [(k, v)]\<rparr>)"
  using assms by (simp add: put_def od_setitem_absent)

lemma put_evict:
  assumes "lru_inv s" and "\<not> od_contains k (cache s)" and "od_len (cache s) \<ge> capacity s"
  shows "cache s \<noteq> [] \<and> put k v s = Inr (s\<lparr>cache := tl (cache s) @ [(k, v)]\<rparr>)"
proof -
  from assms(1,3) have ne: "cache s \<noteq> []"
    by (auto simp: lru_inv_def od_len_def)
  then obtain kv d where d: "cache s = kv # d" by (cases "cache s") auto
  with assms(2) have "\<not> od_contains k d" by (simp add: od_contains_def)
  then have "od_setitem k v d = d @ [(k, v)]" by (rule od_setitem_absent)
  with assms(2,3) d ne show ?thesis by (simp add: put_def)
qed

section \<open>The invariant holds in every reachable state\<close>

lemma lru_inv_init: "LRUCache_init cap = Inr s \<Longrightarrow> lru_inv s"
  by (auto simp: LRUCache_init_def lru_inv_def od_len_def split: if_splits)

lemma lru_inv_get:
  assumes "lru_inv s" and "get k s = Inr (v, s')"
  shows "lru_inv s'"
proof (cases "od_contains k (cache s)")
  case False
  with assms show ?thesis by (simp add: get_absent)
next
  case True
  from get_present [OF assms(1) True] obtain w where
    g: "get k s = Inr (w, s\<lparr>cache := others k (cache s) @ [(k, w)]\<rparr>)"
    by (elim exE conjE)
  have "Inr (v, s') = get k s" using assms(2) by (rule sym)
  also note g
  finally have "v = w \<and> s' = s\<lparr>cache := others k (cache s) @ [(k, w)]\<rparr>"
    by (simp only: sum.inject prod.inject)
  then have s': "s' = s\<lparr>cache := others k (cache s) @ [(k, w)]\<rparr>"
    by (rule conjunct2)
  from assms(1) have dist: "distinct (map fst (cache s))" by (simp add: lru_inv_def)
  then have d1: "distinct (map fst (others k (cache s)))" by (rule distinct_others)
  have d2: "k \<notin> set (map fst (others k (cache s)))"
    using od_contains_others [of k "cache s"] by (simp add: od_contains_def)
  from True dist have len: "Suc (length (others k (cache s))) = length (cache s)"
    by (rule length_others_present)
  from assms(1) s' d1 d2 len show ?thesis
    by (simp add: lru_inv_def od_len_def)
qed

lemma lru_inv_put:
  assumes "lru_inv s" and "put k v s = Inr s'"
  shows "lru_inv s'"
proof (cases "od_contains k (cache s)")
  case True
  with assms have s': "s' = s\<lparr>cache := others k (cache s) @ [(k, v)]\<rparr>"
    by (simp add: put_present)
  from assms(1) have dist: "distinct (map fst (cache s))" by (simp add: lru_inv_def)
  then have d1: "distinct (map fst (others k (cache s)))" by (rule distinct_others)
  have d2: "k \<notin> set (map fst (others k (cache s)))"
    using od_contains_others [of k "cache s"] by (simp add: od_contains_def)
  from True dist have len: "Suc (length (others k (cache s))) = length (cache s)"
    by (rule length_others_present)
  from assms(1) s' d1 d2 len show ?thesis
    by (simp add: lru_inv_def od_len_def)
next
  case False
  show ?thesis
  proof (cases "od_len (cache s) \<ge> capacity s")
    case True
    with assms(1) False have ne: "cache s \<noteq> []"
      and p: "put k v s = Inr (s\<lparr>cache := tl (cache s) @ [(k, v)]\<rparr>)"
      using put_evict [of s k v] by simp_all
    from p assms(2) have s': "s' = s\<lparr>cache := tl (cache s) @ [(k, v)]\<rparr>" by simp
    from assms(1) have "distinct (map fst (cache s))" by (simp add: lru_inv_def)
    then have d1: "distinct (map fst (tl (cache s)))" by (simp add: map_tl distinct_tl)
    from False have d2: "k \<notin> set (map fst (tl (cache s)))"
      using list.set_sel(2) [OF ne] by (auto simp: od_contains_def)
    from ne have len: "length (tl (cache s) @ [(k, v)]) = length (cache s)" by simp
    from assms(1) have "1 \<le> capacity s" "od_len (cache s) \<le> capacity s"
      by (simp_all add: lru_inv_def)
    with d1 d2 len show ?thesis
      unfolding s' lru_inv_def od_len_def by simp
  next
    case room: False
    with False assms(2) have s': "s' = s\<lparr>cache := cache s @ [(k, v)]\<rparr>"
      by (simp add: put_room)
    from assms(1) have d1: "distinct (map fst (cache s))" and c1: "1 \<le> capacity s"
      by (simp_all add: lru_inv_def)
    from False have d2: "k \<notin> set (map fst (cache s))" by (simp add: od_contains_def)
    from room have "int (length (cache s)) < capacity s" by (simp add: od_len_def)
    with d1 d2 c1 show ?thesis
      unfolding s' lru_inv_def od_len_def by simp
  qed
qed

lemma lru_inv_apply_call:
  assumes "lru_inv s" and "apply_call c s = Inr (r, s')"
  shows "lru_inv s'"
proof (cases c)
  case (Get k)
  with assms show ?thesis by (auto split: sum.splits dest: lru_inv_get)
next
  case (Put k v)
  with assms show ?thesis by (auto split: sum.splits dest: lru_inv_put)
next
  case (Peek k)
  with assms show ?thesis by (auto simp: peek_def)
next
  case Clear
  with assms show ?thesis by (auto simp: clear_def lru_inv_def od_len_def)
next
  case GetSize
  with assms show ?thesis by (auto simp: get_size_def)
next
  case IsFull
  with assms show ?thesis by (auto simp: is_full_def)
qed

lemma lru_inv_run_calls:
  "lru_inv s \<Longrightarrow> run_calls cs s = Inr (rs, s') \<Longrightarrow> lru_inv s'"
proof (induction cs arbitrary: s rs)
  case Nil
  then show ?case by simp
next
  case (Cons c cs)
  from Cons.prems(2) obtain r s1 rs1 where
    step: "apply_call c s = Inr (r, s1)" and rest: "run_calls cs s1 = Inr (rs1, s')"
    by (auto split: sum.splits)
  from Cons.prems(1) step have "lru_inv s1" by (rule lru_inv_apply_call)
  then show ?case using rest by (rule Cons.IH)
qed

lemma lru_inv_fresh_run: "fresh_run cap cs = Inr (rs, s) \<Longrightarrow> lru_inv s"
  by (auto simp: fresh_run_def split: sum.splits dest: lru_inv_init lru_inv_run_calls)

lemma capacity_apply_call: "apply_call c s = Inr (r, s') \<Longrightarrow> capacity s' = capacity s"
  by (cases c)
     (auto simp: get_def put_def peek_def clear_def get_size_def is_full_def
           split: sum.splits if_splits)

lemma capacity_run_calls: "run_calls cs s = Inr (rs, s') \<Longrightarrow> capacity s' = capacity s"
proof (induction cs arbitrary: s rs)
  case Nil
  then show ?case by simp
next
  case (Cons c cs)
  from Cons.prems obtain r s1 rs1 where
    step: "apply_call c s = Inr (r, s1)" and rest: "run_calls cs s1 = Inr (rs1, s')"
    by (auto split: sum.splits)
  from rest have "capacity s' = capacity s1" by (rule Cons.IH)
  with step show ?case by (simp add: capacity_apply_call)
qed

lemma capacity_fresh_run: "fresh_run cap cs = Inr (rs, s) \<Longrightarrow> capacity s = cap"
  by (auto simp: fresh_run_def LRUCache_init_def split: if_splits dest: capacity_run_calls)

lemma apply_call_total: "lru_inv s \<Longrightarrow> \<exists>r s'. apply_call c s = Inr (r, s')"
proof (cases c)
  case (Get k)
  assume "lru_inv s"
  then show ?thesis
    using Get get_present [of s k] get_absent [of k s]
    by (cases "od_contains k (cache s)") auto
next
  case (Put k v)
  assume "lru_inv s"
  then show ?thesis
    using Put put_present [of s k v] put_room [of k s v] put_evict [of s k v]
    by (cases "od_contains k (cache s)"; cases "od_len (cache s) \<ge> capacity s") auto
qed (simp_all add: peek_def clear_def get_size_def is_full_def)

lemma run_calls_total: "lru_inv s \<Longrightarrow> \<exists>rs s'. run_calls cs s = Inr (rs, s')"
proof (induction cs arbitrary: s)
  case Nil
  then show ?case by simp
next
  case (Cons c cs)
  from Cons.prems have "\<exists>r s1. apply_call c s = Inr (r, s1)" by (rule apply_call_total)
  then obtain r s1 where step: "apply_call c s = Inr (r, s1)" by (elim exE)
  from Cons.prems step have "lru_inv s1" by (rule lru_inv_apply_call)
  then have "\<exists>rs s'. run_calls cs s1 = Inr (rs, s')" by (rule Cons.IH)
  then obtain rs s' where "run_calls cs s1 = Inr (rs, s')" by (elim exE)
  with step show ?case by simp
qed

lemma fresh_run_total:
  fixes cs :: "('k, 'v) call list"
  assumes "1 \<le> cap"
  shows "\<exists>rs s. fresh_run cap cs = Inr (rs, s)"
proof -
  let ?s0 = "\<lparr>capacity = cap, cache = []\<rparr> :: ('k, 'v) LRUCache"
  from assms have i: "LRUCache_init cap = Inr ?s0"
    by (simp add: LRUCache_init_def)
  then have "lru_inv ?s0" by (rule lru_inv_init)
  then have "\<exists>rs s. run_calls cs ?s0 = Inr (rs, s)" by (rule run_calls_total)
  then obtain rs s where "run_calls cs ?s0 = Inr (rs, s)" by (elim exE)
  with i show ?thesis by (simp add: fresh_run_def)
qed

lemma od_get_absent: "\<not> od_contains k d \<Longrightarrow> od_get k dflt d = dflt"
  by (simp add: od_get_def od_contains_map_of)

lemma od_get_present: "map_of d k = Some v \<Longrightarrow> od_get k dflt d = v"
  by (simp add: od_get_def)

lemma map_of_move_to_end: "map_of (others k d @ [(k, v)]) = (map_of d)(k \<mapsto> v)"
  by (rule ext) (simp add: map_add_def map_of_others split: option.split)

lemma keys_move_to_end:
  "od_contains k d \<Longrightarrow> set (map fst (others k d @ [(k, v)])) = set (map fst d)"
  by (auto simp: od_contains_def others_def)


section \<open>The claims\<close>

text \<open>
  C2. For every capacity \<open>cap \<ge> 1\<close> and every sequence \<open>cs\<close> of calls (get, put, peek,
  clear, get_size, is_full) on a freshly constructed cache, the first \<open>i\<close> calls of the
  sequence run without an exception, whatever \<open>i\<close> is, and \<open>get_size\<close> called in the
  state they leave returns a number between 0 and the capacity. Sequences of \<open>put\<close>
  calls are a special case.
\<close>


theorem capacity_invariant:
  fixes cs :: "('k, 'v) call list"
  assumes "1 \<le> cap"
  shows "\<exists>rs s n. fresh_run cap (take i cs) = Inr (rs, s) \<and> capacity s = cap \<and>
           get_size s = Inr (n, s) \<and> 0 \<le> n \<and> n \<le> cap"
proof -
  from assms have "\<exists>rs s. fresh_run cap (take i cs) = Inr (rs, s)"
    by (rule fresh_run_total)
  then obtain rs s where run: "fresh_run cap (take i cs) = Inr (rs, s)"
    by (elim exE)
  then have "lru_inv s" by (rule lru_inv_fresh_run)
  then have le: "od_len (cache s) \<le> capacity s" by (simp add: lru_inv_def)
  from run have c: "capacity s = cap" by (rule capacity_fresh_run)
  have "get_size s = Inr (od_len (cache s), s)" by (simp add: get_size_def)
  moreover have "0 \<le> od_len (cache s)" by (simp add: od_len_def)
  ultimately show ?thesis using run c le by auto
qed

theorem capacity_invariant_witness:
  "(1::int) \<le> 2 \<and>
   (\<exists>rs s n. fresh_run 2 (take 3 [Put (1::int) (PyStr ''a'' :: unit pyval), Put 2 (PyStr ''b''),
                 Put 3 (PyStr ''c''), Clear]) = Inr (rs, s) \<and> capacity s = 2 \<and>
        get_size s = Inr (n, s) \<and> 0 \<le> n \<and> n \<le> 2) \<and>
   fresh_run 2 (take 3 [Put (1::int) (PyStr ''a'' :: unit pyval), Put 2 (PyStr ''b''),
                 Put 3 (PyStr ''c''), Clear])
     = Inr ([RetNone, RetNone, RetNone],
            \<lparr>capacity = 2, cache = [(2, PyStr ''b''), (3, PyStr ''c'')]\<rparr>)"
proof -
  have h: "(1::int) \<le> 2" by simp
  have e: "fresh_run 2 (take 3 [Put (1::int) (PyStr ''a'' :: unit pyval), Put 2 (PyStr ''b''),
                 Put 3 (PyStr ''c''), Clear])
     = Inr ([RetNone, RetNone, RetNone],
            \<lparr>capacity = 2, cache = [(2, PyStr ''b''), (3, PyStr ''c'')]\<rparr>)"
    by (simp add: fresh_run_def LRUCache_init_def put_def od_contains_def od_len_def)
  from h capacity_invariant [OF h, of 3 "[Put (1::int) (PyStr ''a'' :: unit pyval),
        Put 2 (PyStr ''b''), Put 3 (PyStr ''c''), Clear]"] e
  show ?thesis by blast
qed

text \<open>
  C1. In every reachable state \<open>s\<close> the number of items is at most the capacity, and
  \<open>put key val\<close> with \<open>key\<close> absent does the following. With fewer items than the
  capacity, the new item is appended at the most-recently-used end and the number of
  items grows by one. With as many items as the capacity, the cache is not empty, its
  first (least recently used) item is dropped, its key is no longer in the cache, the
  new item is appended at the most-recently-used end, and the number of items is still
  the capacity. In both cases \<open>put\<close> returns nothing but the updated cache.
\<close>

theorem put_absent_key:
  assumes "fresh_run cap cs = Inr (rs, s)" and "\<not> od_contains k (cache s)"
  shows "od_len (cache s) \<le> capacity s \<and>
         (od_len (cache s) < capacity s \<longrightarrow>
            (\<exists>s'. put k v s = Inr s' \<and> capacity s' = capacity s \<and>
                  cache s' = cache s @ [(k, v)] \<and>
                  od_len (cache s') = od_len (cache s) + 1)) \<and>
         (od_len (cache s) = capacity s \<longrightarrow>
            (\<exists>s'. put k v s = Inr s' \<and> capacity s' = capacity s \<and>
                  cache s \<noteq> [] \<and> cache s' = tl (cache s) @ [(k, v)] \<and>
                  \<not> od_contains (fst (hd (cache s))) (cache s') \<and>
                  od_len (cache s') = capacity s))"
proof (intro conjI impI)
  from assms(1) have inv: "lru_inv s" by (rule lru_inv_fresh_run)
  then show "od_len (cache s) \<le> capacity s" by (simp add: lru_inv_def)
  {
    assume "od_len (cache s) < capacity s"
    with assms(2) have "put k v s = Inr (s\<lparr>cache := cache s @ [(k, v)]\<rparr>)"
      by (rule put_room)
    then show "\<exists>s'. put k v s = Inr s' \<and> capacity s' = capacity s \<and>
                  cache s' = cache s @ [(k, v)] \<and>
                  od_len (cache s') = od_len (cache s) + 1"
      by (simp add: od_len_def)
  }
  {
    assume full: "od_len (cache s) = capacity s"
    then have "od_len (cache s) \<ge> capacity s" by simp
    with inv assms(2)
    have ev: "cache s \<noteq> [] \<and> put k v s = Inr (s\<lparr>cache := tl (cache s) @ [(k, v)]\<rparr>)"
      by (rule put_evict)
    then have ne: "cache s \<noteq> []" by (rule conjunct1)
    from inv have "distinct (map fst (cache s))" by (simp add: lru_inv_def)
    with ne have "fst (hd (cache s)) \<notin> set (map fst (tl (cache s)))"
      by (cases "cache s") simp_all
    moreover from ne assms(2) have "fst (hd (cache s)) \<noteq> k"
      by (cases "cache s") (auto simp: od_contains_def)
    ultimately have gone: "\<not> od_contains (fst (hd (cache s))) (tl (cache s) @ [(k, v)])"
      by (simp add: od_contains_def)
    from ne full have "od_len (tl (cache s) @ [(k, v)]) = capacity s"
      by (simp add: od_len_def)
    with ev gone show "\<exists>s'. put k v s = Inr s' \<and> capacity s' = capacity s \<and>
                  cache s \<noteq> [] \<and> cache s' = tl (cache s) @ [(k, v)] \<and>
                  \<not> od_contains (fst (hd (cache s))) (cache s') \<and>
                  od_len (cache s') = capacity s"
      by simp
  }
qed

lemma run12:
  "fresh_run 2 [Put (1::int) (PyStr ''one'' :: unit pyval), Put 2 (PyStr ''two'')]
     = Inr ([RetNone, RetNone],
            \<lparr>capacity = 2, cache = [(1, PyStr ''one''), (2, PyStr ''two'')]\<rparr>)"
  by (simp add: fresh_run_def LRUCache_init_def put_def od_contains_def od_len_def)

lemma run1:
  "fresh_run 2 [Put (1::int) (PyStr ''one'' :: unit pyval)]
     = Inr ([RetNone], \<lparr>capacity = 2, cache = [(1, PyStr ''one'')]\<rparr>)"
  by (simp add: fresh_run_def LRUCache_init_def put_def od_contains_def od_len_def)

theorem put_absent_key_witness:
  "fresh_run 2 [Put (1::int) (PyStr ''one'' :: unit pyval), Put 2 (PyStr ''two'')]
     = Inr ([RetNone, RetNone],
            \<lparr>capacity = 2, cache = [(1, PyStr ''one''), (2, PyStr ''two'')]\<rparr>) \<and>
   \<not> od_contains (3::int) [(1, PyStr ''one'' :: unit pyval), (2, PyStr ''two'')] \<and>
   (\<exists>s'. put (3::int) (PyStr ''three'' :: unit pyval)
            \<lparr>capacity = 2, cache = [(1, PyStr ''one''), (2, PyStr ''two'')]\<rparr> = Inr s' \<and>
         cache s' = [(2, PyStr ''two''), (3, PyStr ''three'')] \<and>
         \<not> od_contains 1 (cache s') \<and> od_len (cache s') = 2) \<and>
   fresh_run 2 [Put (1::int) (PyStr ''one'' :: unit pyval)]
     = Inr ([RetNone], \<lparr>capacity = 2, cache = [(1, PyStr ''one'')]\<rparr>) \<and>
   \<not> od_contains (3::int) [(1, PyStr ''one'' :: unit pyval)] \<and>
   (\<exists>s'. put (3::int) (PyStr ''three'' :: unit pyval)
            \<lparr>capacity = 2, cache = [(1, PyStr ''one'')]\<rparr> = Inr s' \<and>
         cache s' = [(1, PyStr ''one''), (3, PyStr ''three'')] \<and> od_len (cache s') = 2)"
proof -
  have a: "\<not> od_contains (3::int) [(1, PyStr ''one'' :: unit pyval), (2, PyStr ''two'')]"
    by (simp add: od_contains_def)
  have b: "\<not> od_contains (3::int) [(1, PyStr ''one'' :: unit pyval)]"
    by (simp add: od_contains_def)
  from put_absent_key [OF run12, of 3 "PyStr ''three''"] a
  have full: "\<exists>s'. put (3::int) (PyStr ''three'' :: unit pyval)
            \<lparr>capacity = 2, cache = [(1, PyStr ''one''), (2, PyStr ''two'')]\<rparr> = Inr s' \<and>
         cache s' = [(2, PyStr ''two''), (3, PyStr ''three'')] \<and>
         \<not> od_contains 1 (cache s') \<and> od_len (cache s') = 2"
    by (auto simp: od_len_def)
  from put_absent_key [OF run1, of 3 "PyStr ''three''"] b
  have room: "\<exists>s'. put (3::int) (PyStr ''three'' :: unit pyval)
            \<lparr>capacity = 2, cache = [(1, PyStr ''one'')]\<rparr> = Inr s' \<and>
         cache s' = [(1, PyStr ''one''), (3, PyStr ''three'')] \<and> od_len (cache s') = 2"
    by (auto simp: od_len_def)
  from run12 a full run1 b room show ?thesis by (intro conjI)
qed

text \<open>
  C3. In every reachable state \<open>s\<close>: \<open>get k\<close> for an absent key returns \<open>-1\<close> and the
  state \<open>s\<close> itself, so neither the table nor the order changes; \<open>get k\<close> for a present
  key returns the value \<open>v\<close> stored under \<open>k\<close> and a state of the same capacity and the
  same table, in which the item \<open>(k, v)\<close> is the last (most recently used) one and the
  other items keep their order.
\<close>

theorem get_behaviour:
  assumes "fresh_run cap cs = Inr (rs, s)"
  shows "(\<not> od_contains k (cache s) \<longrightarrow> get k s = Inr (PyInt (- 1), s)) \<and>
         (od_contains k (cache s) \<longrightarrow>
            (\<exists>v s'. map_of (cache s) k = Some v \<and> get k s = Inr (v, s') \<and>
                    capacity s' = capacity s \<and>
                    cache s' = others k (cache s) @ [(k, v)] \<and>
                    map_of (cache s') = map_of (cache s)))"
proof (intro conjI impI)
  assume "\<not> od_contains k (cache s)"
  then show "get k s = Inr (PyInt (- 1), s)" by (rule get_absent)
next
  assume present: "od_contains k (cache s)"
  from assms have "lru_inv s" by (rule lru_inv_fresh_run)
  from get_present [OF this present] obtain v where
    v: "map_of (cache s) k = Some v" and
    g: "get k s = Inr (v, s\<lparr>cache := others k (cache s) @ [(k, v)]\<rparr>)"
    by (elim exE conjE)
  from v have "(map_of (cache s))(k \<mapsto> v) = map_of (cache s)" by (rule map_upd_triv)
  then have "map_of (others k (cache s) @ [(k, v)]) = map_of (cache s)"
    by (simp only: map_of_move_to_end)
  with v g show "\<exists>v s'. map_of (cache s) k = Some v \<and> get k s = Inr (v, s') \<and>
                    capacity s' = capacity s \<and>
                    cache s' = others k (cache s) @ [(k, v)] \<and>
                    map_of (cache s') = map_of (cache s)"
    by simp
qed

theorem get_behaviour_witness:
  "fresh_run 2 [Put (1::int) (PyStr ''one'' :: unit pyval), Put 2 (PyStr ''two'')]
     = Inr ([RetNone, RetNone],
            \<lparr>capacity = 2, cache = [(1, PyStr ''one''), (2, PyStr ''two'')]\<rparr>) \<and>
   \<not> od_contains (3::int) [(1, PyStr ''one'' :: unit pyval), (2, PyStr ''two'')] \<and>
   get (3::int) \<lparr>capacity = 2, cache = [(1, PyStr ''one'' :: unit pyval), (2, PyStr ''two'')]\<rparr>
     = Inr (PyInt (- 1),
            \<lparr>capacity = 2, cache = [(1, PyStr ''one''), (2, PyStr ''two'')]\<rparr>) \<and>
   od_contains (1::int) [(1, PyStr ''one'' :: unit pyval), (2, PyStr ''two'')] \<and>
   (\<exists>s'. get (1::int)
            \<lparr>capacity = 2, cache = [(1, PyStr ''one'' :: unit pyval), (2, PyStr ''two'')]\<rparr>
          = Inr (PyStr ''one'', s') \<and>
         cache s' = [(2, PyStr ''two''), (1, PyStr ''one'')])"
proof -
  have a: "\<not> od_contains (3::int) [(1, PyStr ''one'' :: unit pyval), (2, PyStr ''two'')]"
    by (simp add: od_contains_def)
  have b: "od_contains (1::int) [(1, PyStr ''one'' :: unit pyval), (2, PyStr ''two'')]"
    by (simp add: od_contains_def)
  from get_behaviour [OF run12, of 3] a
  have miss: "get (3::int)
        \<lparr>capacity = 2, cache = [(1, PyStr ''one'' :: unit pyval), (2, PyStr ''two'')]\<rparr>
     = Inr (PyInt (- 1),
            \<lparr>capacity = 2, cache = [(1, PyStr ''one''), (2, PyStr ''two'')]\<rparr>)"
    by simp
  from get_behaviour [OF run12, of 1] b
  have hit: "\<exists>s'. get (1::int)
            \<lparr>capacity = 2, cache = [(1, PyStr ''one'' :: unit pyval), (2, PyStr ''two'')]\<rparr>
          = Inr (PyStr ''one'', s') \<and>
         cache s' = [(2, PyStr ''two''), (1, PyStr ''one'')]"
    by (auto simp: others_def)
  from run12 a miss b hit show ?thesis by (intro conjI)
qed

lemma put_result:
  assumes "lru_inv s"
  shows "\<exists>d. put k v s = Inr (s\<lparr>cache := d @ [(k, v)]\<rparr>) \<and> \<not> od_contains k d"
proof (cases "od_contains k (cache s)")
  case True
  with assms have "put k v s = Inr (s\<lparr>cache := others k (cache s) @ [(k, v)]\<rparr>)"
    by (rule put_present)
  then show ?thesis using od_contains_others [of k "cache s"] by (intro exI conjI)
next
  case False
  show ?thesis
  proof (cases "od_len (cache s) \<ge> capacity s")
    case True
    with assms False
    have ev: "cache s \<noteq> [] \<and> put k v s = Inr (s\<lparr>cache := tl (cache s) @ [(k, v)]\<rparr>)"
      by (rule put_evict)
    then have "cache s \<noteq> []" by (rule conjunct1)
    with False have "\<not> od_contains k (tl (cache s))"
      by (cases "cache s") (simp_all add: od_contains_def)
    with ev show ?thesis by (intro exI conjI) simp_all
  next
    case room: False
    then have "od_len (cache s) < capacity s" by simp
    with False have "put k v s = Inr (s\<lparr>cache := cache s @ [(k, v)]\<rparr>)"
      by (rule put_room)
    with False show ?thesis by (intro exI conjI)
  qed
qed

lemma others_snoc_absent: "\<not> od_contains k d \<Longrightarrow> others k (d @ [(k, v)]) = d"
  using others_absent [of k d] by (simp add: others_def)

lemma map_of_snoc_absent: "\<not> od_contains k d \<Longrightarrow> map_of (d @ [(k, v)]) k = Some v"
  by (simp add: od_contains_map_of map_add_def)

text \<open>
  C6. In every reachable state \<open>s\<close>, full or not, \<open>put k v\<close> with \<open>k\<close> present succeeds;
  afterwards \<open>k\<close> is bound to \<open>v\<close> and every other key to what it was bound to before,
  the item \<open>(k, v)\<close> is the last (most recently used) one, the other items keep their
  order, the set of keys is the same (nothing is evicted) and so is the number of
  items. Moreover, from any reachable state, \<open>put k v1\<close> followed by \<open>put k v2\<close>
  succeeds, the second call leaves the number of items unchanged, and \<open>get k\<close> then
  returns \<open>v2\<close>.
\<close>

theorem put_existing_key:
  assumes "fresh_run cap cs = Inr (rs, s)"
  shows "(od_contains k (cache s) \<longrightarrow>
            (\<exists>s'. put k v s = Inr s' \<and> capacity s' = capacity s \<and>
                  cache s' = others k (cache s) @ [(k, v)] \<and>
                  map_of (cache s') = (map_of (cache s))(k \<mapsto> v) \<and>
                  set (map fst (cache s')) = set (map fst (cache s)) \<and>
                  od_len (cache s') = od_len (cache s))) \<and>
         (\<exists>s1 s2. put k v1 s = Inr s1 \<and> put k v2 s1 = Inr s2 \<and>
                  od_len (cache s2) = od_len (cache s1) \<and>
                  get k s2 = Inr (v2, s2))"
proof (intro conjI impI)
  from assms have inv: "lru_inv s" by (rule lru_inv_fresh_run)
  {
    assume present: "od_contains k (cache s)"
    with inv have p: "put k v s = Inr (s\<lparr>cache := others k (cache s) @ [(k, v)]\<rparr>)"
      by (rule put_present)
    from inv have "distinct (map fst (cache s))" by (simp add: lru_inv_def)
    with present have "Suc (length (others k (cache s))) = length (cache s)"
      by (rule length_others_present)
    then have len: "od_len (others k (cache s) @ [(k, v)]) = od_len (cache s)"
      by (simp add: od_len_def)
    from present
    have keys: "set (map fst (others k (cache s) @ [(k, v)])) = set (map fst (cache s))"
      by (rule keys_move_to_end)
    let ?s' = "s\<lparr>cache := others k (cache s) @ [(k, v)]\<rparr>"
    have c: "capacity ?s' = capacity s" and ca: "cache ?s' = others k (cache s) @ [(k, v)]"
      by simp_all
    have m: "map_of (cache ?s') = (map_of (cache s))(k \<mapsto> v)"
      by (simp only: ca map_of_move_to_end)
    from keys have ks: "set (map fst (cache ?s')) = set (map fst (cache s))"
      by (simp only: ca)
    from len have l: "od_len (cache ?s') = od_len (cache s)" by (simp only: ca)
    from p c ca m ks l
    show "\<exists>s'. put k v s = Inr s' \<and> capacity s' = capacity s \<and>
                  cache s' = others k (cache s) @ [(k, v)] \<and>
                  map_of (cache s') = (map_of (cache s))(k \<mapsto> v) \<and>
                  set (map fst (cache s')) = set (map fst (cache s)) \<and>
                  od_len (cache s') = od_len (cache s)"
      by blast
  }
  from put_result [OF inv, of k v1] obtain d where
    p1: "put k v1 s = Inr (s\<lparr>cache := d @ [(k, v1)]\<rparr>)" and d: "\<not> od_contains k d"
    by (elim exE conjE)
  let ?s1 = "s\<lparr>cache := d @ [(k, v1)]\<rparr>"
  let ?s2 = "s\<lparr>cache := d @ [(k, v2)]\<rparr>"
  from inv p1 have inv1: "lru_inv ?s1" by (rule lru_inv_put)
  have c1: "od_contains k (cache ?s1)" by (simp add: od_contains_def)
  from d have o1: "others k (cache ?s1) = d" by (simp add: others_snoc_absent)
  from put_present [OF inv1 c1, of v2] o1 have p2: "put k v2 ?s1 = Inr ?s2" by simp
  from inv1 p2 have inv2: "lru_inv ?s2" by (rule lru_inv_put)
  have c2: "od_contains k (cache ?s2)" by (simp add: od_contains_def)
  from d have o2: "others k (cache ?s2) = d" by (simp add: others_snoc_absent)
  from d have "map_of (d @ [(k, v2)]) k = Some v2" by (rule map_of_snoc_absent)
  then have m2: "map_of (cache ?s2) k = Some v2" by (simp del: map_of_append)
  from get_present [OF inv2 c2] obtain w where
    w: "map_of (cache ?s2) k = Some w" and
    g: "get k ?s2 = Inr (w, ?s2\<lparr>cache := others k (cache ?s2) @ [(k, w)]\<rparr>)"
    by (elim exE conjE)
  from w m2 have "w = v2" by simp
  with g o2 have g2: "get k ?s2 = Inr (v2, ?s2)" by simp
  have "od_len (cache ?s2) = od_len (cache ?s1)" by (simp add: od_len_def)
  with p1 p2 g2
  show "\<exists>s1 s2. put k v1 s = Inr s1 \<and> put k v2 s1 = Inr s2 \<and>
                  od_len (cache s2) = od_len (cache s1) \<and>
                  get k s2 = Inr (v2, s2)"
    by blast
qed

theorem put_existing_key_witness:
  "fresh_run 2 [Put (1::int) (PyStr ''one'' :: unit pyval), Put 2 (PyStr ''two'')]
     = Inr ([RetNone, RetNone],
            \<lparr>capacity = 2, cache = [(1, PyStr ''one''), (2, PyStr ''two'')]\<rparr>) \<and>
   od_contains (1::int) [(1, PyStr ''one'' :: unit pyval), (2, PyStr ''two'')] \<and>
   (\<exists>s'. put (1::int) (PyInt 7 :: unit pyval)
            \<lparr>capacity = 2, cache = [(1, PyStr ''one''), (2, PyStr ''two'')]\<rparr> = Inr s' \<and>
         cache s' = [(2, PyStr ''two''), (1, PyInt 7)] \<and> od_len (cache s') = 2) \<and>
   (\<exists>s1 s2. put (1::int) (PyInt 7 :: unit pyval)
            \<lparr>capacity = 2, cache = [(1, PyStr ''one''), (2, PyStr ''two'')]\<rparr> = Inr s1 \<and>
         put 1 (PyInt 8) s1 = Inr s2 \<and> od_len (cache s2) = od_len (cache s1) \<and>
         get 1 s2 = Inr (PyInt 8, s2))"
proof -
  have b: "od_contains (1::int) [(1, PyStr ''one'' :: unit pyval), (2, PyStr ''two'')]"
    by (simp add: od_contains_def)
  note t = put_existing_key [OF run12, of 1 "PyInt 7" "PyInt 7" "PyInt 8"]
  from t b
  have one: "\<exists>s'. put (1::int) (PyInt 7 :: unit pyval)
            \<lparr>capacity = 2, cache = [(1, PyStr ''one''), (2, PyStr ''two'')]\<rparr> = Inr s' \<and>
         cache s' = [(2, PyStr ''two''), (1, PyInt 7)] \<and> od_len (cache s') = 2"
    by (auto simp: others_def od_len_def)
  from t have two: "\<exists>s1 s2. put (1::int) (PyInt 7 :: unit pyval)
            \<lparr>capacity = 2, cache = [(1, PyStr ''one''), (2, PyStr ''two'')]\<rparr> = Inr s1 \<and>
         put 1 (PyInt 8) s1 = Inr s2 \<and> od_len (cache s2) = od_len (cache s1) \<and>
         get 1 s2 = Inr (PyInt 8, s2)"
    by (rule conjunct2)
  from run12 b one two show ?thesis by (intro conjI)
qed

lemma map_of_snoc_other: "k' \<noteq> k \<Longrightarrow> map_of (d @ [(k, v)]) k' = map_of d k'"
  by (simp add: map_add_def split: option.split)

lemma map_of_tl_distinct:
  assumes "d \<noteq> []" and "distinct (map fst d)"
  shows "map_of (tl d) k' = (if k' = fst (hd d) then None else map_of d k')"
proof -
  from assms(1) obtain kv t where d: "d = kv # t" by (cases d) auto
  with assms(2) have "fst kv \<notin> fst ` set t" by simp
  then have "map_of t (fst kv) = None" by (simp add: map_of_eq_None_iff)
  with d show ?thesis by (cases kv) auto
qed

lemma keys_tl_diff:
  "set (map fst d) - set (map fst (tl d @ [(k, v)])) \<subseteq> {fst (hd d)}"
  by (cases d) auto

text \<open>
  C10. In every reachable state \<open>s\<close>, for keys \<open>k' \<noteq> k\<close>, \<open>put k v\<close> succeeds and
  afterwards \<open>k'\<close> is bound to exactly what it was bound to before, except in one case:
  when \<open>k\<close> was absent, the cache held as many items as its capacity, and \<open>k'\<close> was the
  key of the first (least recently used) item, \<open>k'\<close> is no longer bound. At most one
  key of the old state is missing from the new one.
\<close>

theorem put_frame:
  assumes "fresh_run cap cs = Inr (rs, s)" and "k' \<noteq> k"
  shows "\<exists>s'. put k v s = Inr s' \<and>
           map_of (cache s') k' =
             (if \<not> od_contains k (cache s) \<and> od_len (cache s) = capacity s \<and>
                 k' = fst (hd (cache s))
              then None else map_of (cache s) k') \<and>
           card (set (map fst (cache s)) - set (map fst (cache s'))) \<le> 1"
proof -
  from assms(1) have inv: "lru_inv s" by (rule lru_inv_fresh_run)
  then have le: "od_len (cache s) \<le> capacity s" and dist: "distinct (map fst (cache s))"
    by (simp_all add: lru_inv_def)
  show ?thesis
  proof (cases "od_contains k (cache s)")
    case True
    let ?s' = "s\<lparr>cache := others k (cache s) @ [(k, v)]\<rparr>"
    from inv True have p: "put k v s = Inr ?s'" by (rule put_present)
    have "map_of (others k (cache s) @ [(k, v)]) k' = ((map_of (cache s))(k \<mapsto> v)) k'"
      by (simp only: map_of_move_to_end)
    with assms(2) have m: "map_of (cache ?s') k' = map_of (cache s) k'"
      by (simp del: map_of_append)
    from True have "set (map fst (others k (cache s) @ [(k, v)])) = set (map fst (cache s))"
      by (rule keys_move_to_end)
    then have "set (map fst (cache s)) - set (map fst (cache ?s')) = {}"
      by (simp del: set_map map_append set_append)
    then have c: "card (set (map fst (cache s)) - set (map fst (cache ?s'))) \<le> 1"
      by (simp only: card.empty)
    from True p m c show ?thesis by auto
  next
    case False
    show ?thesis
    proof (cases "od_len (cache s) \<ge> capacity s")
      case True
      with le have full: "od_len (cache s) = capacity s" by simp
      let ?s' = "s\<lparr>cache := tl (cache s) @ [(k, v)]\<rparr>"
      from inv False True have ev: "cache s \<noteq> [] \<and> put k v s = Inr ?s'"
        by (rule put_evict)
      then have ne: "cache s \<noteq> []" and p: "put k v s = Inr ?s'" by simp_all
      from assms(2) have "map_of (tl (cache s) @ [(k, v)]) k' = map_of (tl (cache s)) k'"
        by (rule map_of_snoc_other)
      also from ne dist have "\<dots> = (if k' = fst (hd (cache s)) then None else map_of (cache s) k')"
        by (rule map_of_tl_distinct)
      finally have m: "map_of (cache ?s') k' =
          (if k' = fst (hd (cache s)) then None else map_of (cache s) k')"
        by (simp del: map_of_append)
      have "card (set (map fst (cache s)) - set (map fst (tl (cache s) @ [(k, v)])))
              \<le> card {fst (hd (cache s))}"
        by (rule card_mono) (simp_all only: finite.intros keys_tl_diff)
      then have c: "card (set (map fst (cache s)) - set (map fst (cache ?s'))) \<le> 1"
        by (simp del: set_map map_append set_append)
      from False full p m c show ?thesis by auto
    next
      case room: False
      then have lt: "od_len (cache s) < capacity s" by simp
      let ?s' = "s\<lparr>cache := cache s @ [(k, v)]\<rparr>"
      from False lt have p: "put k v s = Inr ?s'" by (rule put_room)
      from assms(2) have "map_of (cache s @ [(k, v)]) k' = map_of (cache s) k'"
        by (rule map_of_snoc_other)
      then have m: "map_of (cache ?s') k' = map_of (cache s) k'"
        by (simp del: map_of_append)
      have "set (map fst (cache s)) - set (map fst (cache ?s')) = {}" by auto
      then have c: "card (set (map fst (cache s)) - set (map fst (cache ?s'))) \<le> 1"
        by (simp only: card.empty)
      from lt p m c show ?thesis by auto
    qed
  qed
qed

theorem put_frame_witness:
  "fresh_run 2 [Put (1::int) (PyStr ''one'' :: unit pyval), Put 2 (PyStr ''two'')]
     = Inr ([RetNone, RetNone],
            \<lparr>capacity = 2, cache = [(1, PyStr ''one''), (2, PyStr ''two'')]\<rparr>) \<and>
   (2::int) \<noteq> 3 \<and> (1::int) \<noteq> 3 \<and>
   (\<exists>s'. put (3::int) (PyStr ''three'' :: unit pyval)
            \<lparr>capacity = 2, cache = [(1, PyStr ''one''), (2, PyStr ''two'')]\<rparr> = Inr s' \<and>
         map_of (cache s') 2 = Some (PyStr ''two'')) \<and>
   (\<exists>s'. put (3::int) (PyStr ''three'' :: unit pyval)
            \<lparr>capacity = 2, cache = [(1, PyStr ''one''), (2, PyStr ''two'')]\<rparr> = Inr s' \<and>
         map_of (cache s') 1 = None)"
proof -
  have a: "(2::int) \<noteq> 3" and b: "(1::int) \<noteq> 3" by simp_all
  from put_frame [OF run12 a, of "PyStr ''three''"]
  have keep: "\<exists>s'. put (3::int) (PyStr ''three'' :: unit pyval)
            \<lparr>capacity = 2, cache = [(1, PyStr ''one''), (2, PyStr ''two'')]\<rparr> = Inr s' \<and>
         map_of (cache s') 2 = Some (PyStr ''two'')"
    by (auto simp: od_contains_def od_len_def)
  from put_frame [OF run12 b, of "PyStr ''three''"]
  have evict: "\<exists>s'. put (3::int) (PyStr ''three'' :: unit pyval)
            \<lparr>capacity = 2, cache = [(1, PyStr ''one''), (2, PyStr ''two'')]\<rparr> = Inr s' \<and>
         map_of (cache s') 1 = None"
    by (auto simp: od_contains_def od_len_def)
  from run12 a b keep evict show ?thesis by (intro conjI)
qed

text \<open>
  C8. The constructor raises exactly when the requested capacity is at most 0, the
  exception is \<open>ValueError\<close>, and no cache is returned then. On a constructed cache
  (capacity at least 1) no sequence of calls raises; in particular, in every reachable
  state, \<open>put\<close>, \<open>get\<close>, \<open>peek\<close>, \<open>clear\<close>, \<open>get_size\<close> and \<open>is_full\<close> all return normally,
  and \<open>get\<close> and \<open>peek\<close> of an absent key return \<open>-1\<close> instead of raising.
\<close>

theorem failure_modes:
  fixes cs :: "('k, 'v) call list" and cs' :: "('k, 'v) call list"
  shows "((\<exists>e. (LRUCache_init cap :: py_error + ('k, 'v) LRUCache) = Inl e) \<longleftrightarrow> cap \<le> 0) \<and>
         (cap \<le> 0 \<longrightarrow> (LRUCache_init cap :: py_error + ('k, 'v) LRUCache) = Inl ValueError) \<and>
         (1 \<le> cap \<longrightarrow> (\<exists>rs s. fresh_run cap cs = Inr (rs, s))) \<and>
         (fresh_run cap cs' = Inr (rs', s) \<longrightarrow>
            (\<exists>s'. put k v s = Inr s') \<and>
            (\<exists>r s'. get k s = Inr (r, s')) \<and>
            (\<exists>r. peek k s = Inr (r, s)) \<and>
            (\<exists>s'. clear s = Inr s') \<and>
            (\<exists>n. get_size s = Inr (n, s)) \<and>
            (\<exists>b. is_full s = Inr (b, s)) \<and>
            (\<not> od_contains k (cache s) \<longrightarrow>
               get k s = Inr (PyInt (- 1), s) \<and> peek k s = Inr (PyInt (- 1), s)))"
proof (intro conjI impI)
  show "(\<exists>e. (LRUCache_init cap :: py_error + ('k, 'v) LRUCache) = Inl e) \<longleftrightarrow> cap \<le> 0"
    by (simp add: LRUCache_init_def)
  show "(LRUCache_init cap :: py_error + ('k, 'v) LRUCache) = Inl ValueError" if "cap \<le> 0"
    using that by (simp add: LRUCache_init_def)
  show "\<exists>rs s. fresh_run cap cs = Inr (rs, s)" if "1 \<le> cap"
    using that by (rule fresh_run_total)
next
  assume run: "fresh_run cap cs' = Inr (rs', s)"
  then have inv: "lru_inv s" by (rule lru_inv_fresh_run)
  from put_result [OF inv, of k v] show "\<exists>s'. put k v s = Inr s'" by blast
  show "\<exists>r s'. get k s = Inr (r, s')"
  proof (cases "od_contains k (cache s)")
    case True
    with inv have "\<exists>v. map_of (cache s) k = Some v \<and>
        get k s = Inr (v, s\<lparr>cache := others k (cache s) @ [(k, v)]\<rparr>)"
      by (rule get_present)
    then show ?thesis by blast
  next
    case False
    then have "get k s = Inr (PyInt (- 1), s)" by (rule get_absent)
    then show ?thesis by blast
  qed
  show "\<exists>r. peek k s = Inr (r, s)" by (simp add: peek_def)
  show "\<exists>s'. clear s = Inr s'" by (simp add: clear_def)
  show "\<exists>n. get_size s = Inr (n, s)" by (simp add: get_size_def)
  show "\<exists>b. is_full s = Inr (b, s)" by (simp add: is_full_def)
  show "get k s = Inr (PyInt (- 1), s)" if "\<not> od_contains k (cache s)"
    using that by (rule get_absent)
  show "peek k s = Inr (PyInt (- 1), s)" if "\<not> od_contains k (cache s)"
    using that by (simp add: peek_def od_get_absent)
qed

theorem failure_modes_witness:
  "(LRUCache_init 0 :: py_error + (int, unit) LRUCache) = Inl ValueError \<and>
   (LRUCache_init (- 3) :: py_error + (int, unit) LRUCache) = Inl ValueError \<and>
   (\<exists>rs s. fresh_run 1 [Put (1::int) (PyStr ''one'' :: unit pyval), Put 2 (PyStr ''two''),
                         Get 1, Peek 1, IsFull, GetSize, Clear, Put 1 (PyInt 0)]
            = Inr (rs, s)) \<and>
   fresh_run 2 [Put (1::int) (PyStr ''one'' :: unit pyval), Put 2 (PyStr ''two'')]
     = Inr ([RetNone, RetNone],
            \<lparr>capacity = 2, cache = [(1, PyStr ''one''), (2, PyStr ''two'')]\<rparr>) \<and>
   \<not> od_contains (3::int) [(1, PyStr ''one'' :: unit pyval), (2, PyStr ''two'')] \<and>
   (\<exists>s'. put (3::int) (PyStr ''three'' :: unit pyval)
            \<lparr>capacity = 2, cache = [(1, PyStr ''one''), (2, PyStr ''two'')]\<rparr> = Inr s') \<and>
   peek (3::int) \<lparr>capacity = 2, cache = [(1, PyStr ''one'' :: unit pyval), (2, PyStr ''two'')]\<rparr>
     = Inr (PyInt (- 1),
            \<lparr>capacity = 2, cache = [(1, PyStr ''one''), (2, PyStr ''two'')]\<rparr>)"
proof -
  have a: "\<not> od_contains (3::int) [(1, PyStr ''one'' :: unit pyval), (2, PyStr ''two'')]"
    by (simp add: od_contains_def)
  have z: "(0::int) \<le> 0" and m: "(- 3::int) \<le> 0" and o: "(1::int) \<le> 1" by simp_all
  note t0 = failure_modes [where ?'k = int and ?'v = unit and cap = 0]
  note t3 = failure_modes [where ?'k = int and ?'v = unit and cap = "- 3"]
  note t1 = failure_modes [where cap = 1 and cs = "[Put (1::int) (PyStr ''one'' :: unit pyval),
       Put 2 (PyStr ''two''), Get 1, Peek 1, IsFull, GetSize, Clear, Put 1 (PyInt 0)]"]
  note t2 = failure_modes [where cap = 2 and k = "3::int" and v = "PyStr ''three'' :: unit pyval"
       and cs' = "[Put (1::int) (PyStr ''one'' :: unit pyval), Put 2 (PyStr ''two'')]"
       and rs' = "[RetNone, RetNone]"
       and s = "\<lparr>capacity = 2, cache = [(1, PyStr ''one''), (2, PyStr ''two'')]\<rparr>"]
  from t0 z have c0: "(LRUCache_init 0 :: py_error + (int, unit) LRUCache) = Inl ValueError"
    by blast
  from t3 m have c3: "(LRUCache_init (- 3) :: py_error + (int, unit) LRUCache) = Inl ValueError"
    by blast
  from t1 o have c1: "\<exists>rs s. fresh_run 1 [Put (1::int) (PyStr ''one'' :: unit pyval),
       Put 2 (PyStr ''two''), Get 1, Peek 1, IsFull, GetSize, Clear, Put 1 (PyInt 0)]
            = Inr (rs, s)"
    by blast
  from t2 run12 have c2: "\<exists>s'. put (3::int) (PyStr ''three'' :: unit pyval)
            \<lparr>capacity = 2, cache = [(1, PyStr ''one''), (2, PyStr ''two'')]\<rparr> = Inr s'"
    by blast
  from t2 run12 a have c4: "peek (3::int)
       \<lparr>capacity = 2, cache = [(1, PyStr ''one'' :: unit pyval), (2, PyStr ''two'')]\<rparr>
     = Inr (PyInt (- 1),
            \<lparr>capacity = 2, cache = [(1, PyStr ''one''), (2, PyStr ''two'')]\<rparr>)"
    by simp
  from c0 c3 c1 run12 a c2 c4 show ?thesis by (intro conjI)
qed

text \<open>
  C5. In every reachable state \<open>s\<close>, \<open>peek k\<close> returns the value that \<open>get k\<close> returns
  (the stored value, or \<open>-1\<close> for an absent key) and returns the state \<open>s\<close> itself, so
  the table and the order are unchanged. On a cache of capacity 2 and for distinct keys
  \<open>k1\<close>, \<open>k2\<close>, \<open>k3\<close>, the calls put k1, put k2, peek k1, put k3 leave the items of \<open>k2\<close>
  and \<open>k3\<close>: the peek returned the value of \<open>k1\<close> and \<open>k1\<close> was evicted all the same.
\<close>

theorem peek_behaviour:
  fixes s :: "('k, 'v) LRUCache" and k k1 k2 k3 :: 'k and v1 v2 v3 :: "'v pyval"
  assumes "fresh_run cap cs = Inr (rs, s)"
  shows "(\<exists>r s'. get k s = Inr (r, s') \<and> peek k s = Inr (r, s)) \<and>
         (k1 \<noteq> k2 \<and> k1 \<noteq> k3 \<and> k2 \<noteq> k3 \<longrightarrow>
            fresh_run 2 [Put k1 v1, Put k2 v2, Peek k1, Put k3 v3]
              = Inr ([RetNone, RetNone, RetVal v1, RetNone],
                     \<lparr>capacity = 2, cache = [(k2, v2), (k3, v3)]\<rparr>) \<and>
            \<not> od_contains k1 [(k2, v2), (k3, v3)])"
proof (intro conjI impI)
  from assms have inv: "lru_inv s" by (rule lru_inv_fresh_run)
  show "\<exists>r s'. get k s = Inr (r, s') \<and> peek k s = Inr (r, s)"
  proof (cases "od_contains k (cache s)")
    case True
    from get_present [OF inv True] obtain v where
      v: "map_of (cache s) k = Some v" and
      g: "get k s = Inr (v, s\<lparr>cache := others k (cache s) @ [(k, v)]\<rparr>)"
      by (elim exE conjE)
    from v have "od_get k (PyInt (- 1)) (cache s) = v" by (rule od_get_present)
    then have "peek k s = Inr (v, s)" by (simp add: peek_def)
    with g show ?thesis by blast
  next
    case False
    then have "get k s = Inr (PyInt (- 1), s)" by (rule get_absent)
    moreover from False have "peek k s = Inr (PyInt (- 1), s)"
      by (simp add: peek_def od_get_absent)
    ultimately show ?thesis by blast
  qed
next
  assume d: "k1 \<noteq> k2 \<and> k1 \<noteq> k3 \<and> k2 \<noteq> k3"
  then have ne: "k1 \<noteq> k2" "k1 \<noteq> k3" "k2 \<noteq> k3" "k2 \<noteq> k1" "k3 \<noteq> k1" "k3 \<noteq> k2"
    by auto
  then show "fresh_run 2 [Put k1 v1, Put k2 v2, Peek k1, Put k3 v3]
              = Inr ([RetNone, RetNone, RetVal v1, RetNone],
                     \<lparr>capacity = 2, cache = [(k2, v2), (k3, v3)]\<rparr>)"
    by (simp add: fresh_run_def LRUCache_init_def put_def peek_def od_get_def
                  od_contains_def od_len_def)
  from ne show "\<not> od_contains k1 [(k2, v2), (k3, v3)]"
    by (simp add: od_contains_def)
qed

theorem peek_behaviour_witness:
  "fresh_run 2 [Put (1::int) (PyStr ''one'' :: unit pyval), Put 2 (PyStr ''two'')]
     = Inr ([RetNone, RetNone],
            \<lparr>capacity = 2, cache = [(1, PyStr ''one''), (2, PyStr ''two'')]\<rparr>) \<and>
   (\<exists>r s'. get (1::int)
        \<lparr>capacity = 2, cache = [(1, PyStr ''one'' :: unit pyval), (2, PyStr ''two'')]\<rparr>
          = Inr (r, s') \<and>
      peek (1::int) \<lparr>capacity = 2, cache = [(1, PyStr ''one''), (2, PyStr ''two'')]\<rparr>
          = Inr (r, \<lparr>capacity = 2, cache = [(1, PyStr ''one''), (2, PyStr ''two'')]\<rparr>)) \<and>
   ((10::int) \<noteq> 20 \<and> (10::int) \<noteq> 30 \<and> (20::int) \<noteq> 30) \<and>
   fresh_run 2 [Put (10::int) (PyInt 1 :: unit pyval), Put 20 (PyInt 2), Peek 10, Put 30 (PyInt 3)]
     = Inr ([RetNone, RetNone, RetVal (PyInt 1), RetNone],
            \<lparr>capacity = 2, cache = [(20, PyInt 2), (30, PyInt 3)]\<rparr>)"
proof -
  have d: "(10::int) \<noteq> 20 \<and> (10::int) \<noteq> 30 \<and> (20::int) \<noteq> 30" by simp
  note t = peek_behaviour [OF run12, of 1 10 20 30 "PyInt 1" "PyInt 2" "PyInt 3"]
  from t have one: "\<exists>r s'. get (1::int)
        \<lparr>capacity = 2, cache = [(1, PyStr ''one'' :: unit pyval), (2, PyStr ''two'')]\<rparr>
          = Inr (r, s') \<and>
      peek (1::int) \<lparr>capacity = 2, cache = [(1, PyStr ''one''), (2, PyStr ''two'')]\<rparr>
          = Inr (r, \<lparr>capacity = 2, cache = [(1, PyStr ''one''), (2, PyStr ''two'')]\<rparr>)"
    by (rule conjunct1)
  from t d have two: "fresh_run 2
       [Put (10::int) (PyInt 1 :: unit pyval), Put 20 (PyInt 2), Peek 10, Put 30 (PyInt 3)]
     = Inr ([RetNone, RetNone, RetVal (PyInt 1), RetNone],
            \<lparr>capacity = 2, cache = [(20, PyInt 2), (30, PyInt 3)]\<rparr>)"
    by blast
  from run12 one d two show ?thesis by blast
qed

text \<open>
  C4. On a cache of capacity 2 and for distinct keys \<open>k1\<close>, \<open>k2\<close>, \<open>k3\<close>, the calls put k1,
  put k2, get k1, put k3 leave the items of \<open>k1\<close> and \<open>k3\<close>: the get returned the value of
  \<open>k1\<close> and made \<open>k2\<close> the least recently used key, which the last put evicted. The usage
  example of the source: with capacity 2, after put(1, 'one') and put(2, 'two'), get(1)
  returns 'one', put(3, 'three') evicts key 2, get(2) returns \<open>-1\<close> and get(3) returns
  'three'.
\<close>

theorem recency_refresh:
  fixes k1 k2 k3 :: 'k and v1 v2 v3 :: "'v pyval"
  shows
  "(k1 \<noteq> k2 \<and> k1 \<noteq> k3 \<and> k2 \<noteq> k3 \<longrightarrow>
      fresh_run 2 [Put k1 v1, Put k2 v2, Get k1, Put k3 v3]
        = Inr ([RetNone, RetNone, RetVal v1, RetNone],
               \<lparr>capacity = 2, cache = [(k1, v1), (k3, v3)]\<rparr>) \<and>
      od_contains k1 [(k1, v1), (k3, v3)] \<and> \<not> od_contains k2 [(k1, v1), (k3, v3)]) \<and>
   fresh_run 2 [Put (1::int) (PyStr ''one'' :: 'v pyval), Put 2 (PyStr ''two''), Get 1,
                Put 3 (PyStr ''three''), Get 2, Get 3]
     = Inr ([RetNone, RetNone, RetVal (PyStr ''one''), RetNone, RetVal (PyInt (- 1)),
             RetVal (PyStr ''three'')],
            \<lparr>capacity = 2, cache = [(1, PyStr ''one''), (3, PyStr ''three'')]\<rparr>)"
proof (intro conjI impI)
  assume d: "k1 \<noteq> k2 \<and> k1 \<noteq> k3 \<and> k2 \<noteq> k3"
  then have ne: "k1 \<noteq> k2" "k1 \<noteq> k3" "k2 \<noteq> k3" "k2 \<noteq> k1" "k3 \<noteq> k1" "k3 \<noteq> k2"
    by auto
  then show "fresh_run 2 [Put k1 v1, Put k2 v2, Get k1, Put k3 v3]
        = Inr ([RetNone, RetNone, RetVal v1, RetNone],
               \<lparr>capacity = 2, cache = [(k1, v1), (k3, v3)]\<rparr>)"
    by (simp add: fresh_run_def LRUCache_init_def put_def get_def od_contains_def od_len_def)
  show "od_contains k1 [(k1, v1), (k3, v3)]" by (simp add: od_contains_def)
  from ne show "\<not> od_contains k2 [(k1, v1), (k3, v3)]" by (simp add: od_contains_def)
next
  show "fresh_run 2 [Put (1::int) (PyStr ''one'' :: 'v pyval), Put 2 (PyStr ''two''), Get 1,
                Put 3 (PyStr ''three''), Get 2, Get 3]
     = Inr ([RetNone, RetNone, RetVal (PyStr ''one''), RetNone, RetVal (PyInt (- 1)),
             RetVal (PyStr ''three'')],
            \<lparr>capacity = 2, cache = [(1, PyStr ''one''), (3, PyStr ''three'')]\<rparr>)"
    by (simp add: fresh_run_def LRUCache_init_def put_def get_def od_contains_def od_len_def)
qed

theorem recency_refresh_witness:
  "(''a'' \<noteq> ''b'' \<and> ''a'' \<noteq> ''c'' \<and> ''b'' \<noteq> ''c'') \<and>
   fresh_run 2 [Put ''a'' (PyInt 1 :: unit pyval), Put ''b'' (PyInt 2), Get ''a'',
                Put ''c'' (PyInt 3)]
     = Inr ([RetNone, RetNone, RetVal (PyInt 1), RetNone],
            \<lparr>capacity = 2, cache = [(''a'', PyInt 1), (''c'', PyInt 3)]\<rparr>)"
proof -
  have d: "''a'' \<noteq> ''b'' \<and> ''a'' \<noteq> ''c'' \<and> ''b'' \<noteq> ''c''" by simp
  note t = recency_refresh [where ?k1.0 = "''a''" and ?k2.0 = "''b''" and ?k3.0 = "''c''"
      and ?v1.0 = "PyInt 1 :: unit pyval" and ?v2.0 = "PyInt 2" and ?v3.0 = "PyInt 3"]
  from t d have "fresh_run 2 [Put ''a'' (PyInt 1 :: unit pyval), Put ''b'' (PyInt 2), Get ''a'',
                Put ''c'' (PyInt 3)]
     = Inr ([RetNone, RetNone, RetVal (PyInt 1), RetNone],
            \<lparr>capacity = 2, cache = [(''a'', PyInt 1), (''c'', PyInt 3)]\<rparr>)"
    by blast
  with d show ?thesis by (rule conjI)
qed

text \<open>
  C9. The value \<open>-1\<close> returned for a missing key can also be a stored value: for any
  key \<open>k\<close>, after \<open>put(k, -1)\<close> on a fresh cache the key is present, in the fresh cache
  itself it is absent, and in both states \<open>get k\<close> returns \<open>-1\<close> and \<open>peek k\<close> returns
  \<open>-1\<close>. The returned value does not tell the two states apart.
\<close>

theorem sentinel_conflation:
  "fresh_run 1 [Put k (PyInt (- 1))]
     = Inr ([RetNone], \<lparr>capacity = 1, cache = [(k, PyInt (- 1))]\<rparr>) \<and>
   fresh_run 1 ([] :: ('k, 'v) call list) = Inr ([], \<lparr>capacity = 1, cache = []\<rparr>) \<and>
   od_contains k [(k, PyInt (- 1) :: 'v pyval)] \<and>
   \<not> od_contains k ([] :: ('k, 'v pyval) ordered_dict) \<and>
   get k \<lparr>capacity = 1, cache = [(k, PyInt (- 1) :: 'v pyval)]\<rparr>
     = Inr (PyInt (- 1), \<lparr>capacity = 1, cache = [(k, PyInt (- 1))]\<rparr>) \<and>
   get k \<lparr>capacity = 1, cache = ([] :: ('k, 'v pyval) ordered_dict)\<rparr>
     = Inr (PyInt (- 1), \<lparr>capacity = 1, cache = []\<rparr>) \<and>
   peek k \<lparr>capacity = 1, cache = [(k, PyInt (- 1) :: 'v pyval)]\<rparr>
     = Inr (PyInt (- 1), \<lparr>capacity = 1, cache = [(k, PyInt (- 1))]\<rparr>) \<and>
   peek k \<lparr>capacity = 1, cache = ([] :: ('k, 'v pyval) ordered_dict)\<rparr>
     = Inr (PyInt (- 1), \<lparr>capacity = 1, cache = []\<rparr>)"
  by (simp add: fresh_run_def LRUCache_init_def put_def get_def peek_def od_get_def
                od_contains_def od_len_def)

end
